theory Spec2Isabelle
  imports Main
begin

section \<open>Strings, rows and tables\<close>

text \<open>
  A Python \<open>str\<close> is a sequence of Unicode code points, so a string is modelled as a
  list of code points (natural numbers) and not as a list of bytes.  A CSV row is the
  list of its cells, and the content of a CSV file is the list of its rows, as
  \<open>csv.reader\<close> delivers them.
\<close>

type_synonym ustr = "nat list"
type_synonym row = "ustr list"

definition ustr :: "string \<Rightarrow> ustr" where
  "ustr s = map of_char s"

text \<open>Membership in an ascending table of inclusive code-point ranges.\<close>

fun in_ranges :: "nat \<Rightarrow> (nat \<times> nat) list \<Rightarrow> bool" where
  "in_ranges c [] = False"
| "in_ranges c ((lo, hi) # rs) =
     (if c < lo then False else if c \<le> hi then True else in_ranges c rs)"

subsection \<open>\<open>str.isdigit\<close>\<close>

text \<open>
  \<open>str.isdigit\<close> holds for a non-empty string all of whose characters have the
  Unicode property Numeric\_Type = Decimal or Digit.  The table lists those code points
  (Unicode Character Database 14.0.0, the one of CPython 3.11).  It contains the ten
  ASCII digits and the decimal digits of other scripts, and also digits that are not
  decimal digits, such as the superscripts U+00B2, U+00B3 and U+00B9.
\<close>

definition digit_ranges :: "(nat \<times> nat) list" where
  "digit_ranges =
    [(48, 57), (178, 179), (185, 185), (1632, 1641), (1776, 1785), (1984, 1993),
     (2406, 2415), (2534, 2543), (2662, 2671), (2790, 2799), (2918, 2927), (3046, 3055),
     (3174, 3183), (3302, 3311), (3430, 3439), (3558, 3567), (3664, 3673), (3792, 3801),
     (3872, 3881), (4160, 4169), (4240, 4249), (4969, 4977), (6112, 6121), (6160, 6169),
     (6470, 6479), (6608, 6618), (6784, 6793), (6800, 6809), (6992, 7001), (7088, 7097),
     (7232, 7241), (7248, 7257), (8304, 8304), (8308, 8313), (8320, 8329), (9312, 9320),
     (9332, 9340), (9352, 9360), (9450, 9450), (9461, 9469), (9471, 9471),
     (10102, 10110), (10112, 10120), (10122, 10130), (42528, 42537), (43216, 43225),
     (43264, 43273), (43472, 43481), (43504, 43513), (43600, 43609), (44016, 44025),
     (65296, 65305), (66720, 66729), (68160, 68163), (68912, 68921), (69216, 69224),
     (69714, 69722), (69734, 69743), (69872, 69881), (69942, 69951), (70096, 70105),
     (70384, 70393), (70736, 70745), (70864, 70873), (71248, 71257), (71360, 71369),
     (71472, 71481), (71904, 71913), (72016, 72025), (72784, 72793), (73040, 73049),
     (73120, 73129), (92768, 92777), (92864, 92873), (93008, 93017), (120782, 120831),
     (123200, 123209), (123632, 123641), (125264, 125273), (127232, 127242),
     (130032, 130041)]"

definition isdigit_char :: "nat \<Rightarrow> bool" where
  "isdigit_char c = in_ranges c digit_ranges"

definition isdigit :: "ustr \<Rightarrow> bool" where
  "isdigit s = (s \<noteq> [] \<and> list_all isdigit_char s)"

text \<open>
  The decimal digits proper are the code points with Numeric\_Type = Decimal, those
  \<open>str.isdecimal\<close> accepts.
\<close>

definition decimal_ranges :: "(nat \<times> nat) list" where
  "decimal_ranges =
    [(48, 57), (1632, 1641), (1776, 1785), (1984, 1993), (2406, 2415), (2534, 2543),
     (2662, 2671), (2790, 2799), (2918, 2927), (3046, 3055), (3174, 3183), (3302, 3311),
     (3430, 3439), (3558, 3567), (3664, 3673), (3792, 3801), (3872, 3881), (4160, 4169),
     (4240, 4249), (6112, 6121), (6160, 6169), (6470, 6479), (6608, 6617), (6784, 6793),
     (6800, 6809), (6992, 7001), (7088, 7097), (7232, 7241), (7248, 7257),
     (42528, 42537), (43216, 43225), (43264, 43273), (43472, 43481), (43504, 43513),
     (43600, 43609), (44016, 44025), (65296, 65305), (66720, 66729), (68912, 68921),
     (69734, 69743), (69872, 69881), (69942, 69951), (70096, 70105), (70384, 70393),
     (70736, 70745), (70864, 70873), (71248, 71257), (71360, 71369), (71472, 71481),
     (71904, 71913), (72016, 72025), (72784, 72793), (73040, 73049), (73120, 73129),
     (92768, 92777), (92864, 92873), (93008, 93017), (120782, 120831),
     (123200, 123209), (123632, 123641), (125264, 125273), (130032, 130041)]"

definition isdecimal_char :: "nat \<Rightarrow> bool" where
  "isdecimal_char c = in_ranges c decimal_ranges"

section \<open>The run sampler of \<open>task_data.py\<close>\<close>

text \<open>
  The loop of \<open>filter_csv_columns\<close> in \<open>task_data.py\<close> over the data rows:
  \<^verbatim>\<open>
  keep = []
  i = 0
  while i < len(rows):
      az_val = rows[i][51] if len(rows[i]) > 51 else ''
      if az_val.isdigit():
          num = az_val
          j = i
          while j < len(rows) and len(rows[j]) > 51 and rows[j][51] == num:
              j += 1
          seq_len = j - i
          if seq_len >= 5:
              keep.append(rows[i])
              if i + 3 < j:
                  keep.append(rows[i + 3])
          i = j
      else:
          i += 1
  \<close>
  Every index is guarded by a length test, so no \<open>IndexError\<close> can arise.
\<close>

definition az_val :: "row \<Rightarrow> ustr" where
  "az_val r = (if length r > 51 then r ! 51 else [])"

text \<open>The inner loop: the first position from \<open>j\<close> on where the run stops.\<close>

function run_end :: "row list \<Rightarrow> ustr \<Rightarrow> nat \<Rightarrow> nat" where
  "run_end rows num j =
     (if j < length rows \<and> length (rows ! j) > 51 \<and> rows ! j ! 51 = num
      then run_end rows num (j + 1) else j)"
  by pat_completeness auto
termination
  by (relation "measure (\<lambda>(rows, num, j). length rows - j)") auto

declare run_end.simps [simp del]

lemma run_end_ge: "j \<le> run_end rows num j"
proof (induction rows num j rule: run_end.induct)
  case (1 rows num j)
  then show ?case
    by (subst run_end.simps) (auto simp: Suc_leD)
qed

lemma run_end_le: "j \<le> length rows \<Longrightarrow> run_end rows num j \<le> length rows"
proof (induction rows num j rule: run_end.induct)
  case (1 rows num j)
  then show ?case
    by (subst run_end.simps) auto
qed

lemma run_end_gt:
  assumes "j < length rows" "length (rows ! j) > 51" "rows ! j ! 51 = num"
  shows "j < run_end rows num j"
proof -
  have "run_end rows num j = run_end rows num (j + 1)"
    using assms by (subst run_end.simps) simp
  moreover have "j + 1 \<le> run_end rows num (j + 1)"
    by (rule run_end_ge)
  ultimately show ?thesis by simp
qed

lemma isdigit_az_val: "isdigit (az_val r) \<Longrightarrow> length r > 51 \<and> r ! 51 = az_val r"
  by (auto simp: az_val_def isdigit_def split: if_splits)

text \<open>
  The body of the outer loop when the key value is all digits: the new position and
  the new \<open>keep\<close> list.
\<close>

definition keep_run :: "row list \<Rightarrow> nat \<Rightarrow> nat \<Rightarrow> row list \<Rightarrow> row list" where
  "keep_run rows i j keep =
     (let seq_len = j - i in
      if seq_len \<ge> 5 then
        (let keep1 = keep @ [rows ! i] in
         if i + 3 < j then keep1 @ [rows ! (i + 3)] else keep1)
      else keep)"

function sample_loop :: "row list \<Rightarrow> nat \<Rightarrow> row list \<Rightarrow> row list" where
  "sample_loop rows i keep =
     (if i < length rows then
        (if isdigit (az_val (rows ! i)) then
           (let num = az_val (rows ! i); j = run_end rows num i
            in sample_loop rows j (keep_run rows i j keep))
         else sample_loop rows (i + 1) keep)
      else keep)"
  by pat_completeness auto
termination
proof (relation "measure (\<lambda>(rows, i, keep). length rows - i)", goal_cases)
  case 1
  show ?case by simp
next
  case (2 rows i keep num j)
  have "i < run_end rows (az_val (rows ! i)) i"
    using 2 isdigit_az_val [of "rows ! i"] by (intro run_end_gt) auto
  with 2 show ?case by simp
next
  case (3 rows i keep)
  then show ?case by simp
qed

declare sample_loop.simps [simp del]

definition sample :: "row list \<Rightarrow> row list" where
  "sample rows = sample_loop rows 0 []"

text \<open>
  The same loop with the positions it keeps recorded in place of the rows: where the
  source appends \<open>rows[i]\<close> this one appends \<open>i\<close>.  It tells which positions
  of the input survive, also when two rows are equal.
\<close>

definition note_run :: "nat \<Rightarrow> nat \<Rightarrow> nat list \<Rightarrow> nat list" where
  "note_run i j kept =
     (let seq_len = j - i in
      if seq_len \<ge> 5 then
        (let kept1 = kept @ [i] in
         if i + 3 < j then kept1 @ [i + 3] else kept1)
      else kept)"

function kept_loop :: "row list \<Rightarrow> nat \<Rightarrow> nat list \<Rightarrow> nat list" where
  "kept_loop rows i kept =
     (if i < length rows then
        (if isdigit (az_val (rows ! i)) then
           (let num = az_val (rows ! i); j = run_end rows num i
            in kept_loop rows j (note_run i j kept))
         else kept_loop rows (i + 1) kept)
      else kept)"
  by pat_completeness auto
termination
proof (relation "measure (\<lambda>(rows, i, kept). length rows - i)", goal_cases)
  case 1
  show ?case by simp
next
  case (2 rows i kept num j)
  have "i < run_end rows (az_val (rows ! i)) i"
    using 2 isdigit_az_val [of "rows ! i"] by (intro run_end_gt) auto
  with 2 show ?case by simp
next
  case (3 rows i kept)
  then show ?case by simp
qed

declare kept_loop.simps [simp del]

definition kept_positions :: "row list \<Rightarrow> nat list" where
  "kept_positions rows = kept_loop rows 0 []"

text \<open>A row of 52 cells whose only non-empty cell is the key cell, at index 51.\<close>

definition key_row :: "ustr \<Rightarrow> row" where
  "key_row k = replicate 51 [] @ [k]"

text \<open>
  The sampler as a recursion over the list of rows: the description of section 4.3 of
  the specification, with positions counted from the head of the list.
\<close>

function run_picks :: "row list \<Rightarrow> nat list" where
  "run_picks [] = []"
| "run_picks (r # rs) =
     (if isdigit (az_val r) then
        (let n = Suc (length (takeWhile (\<lambda>x. az_val x = az_val r) rs))
         in (if n \<ge> 5 then [0, 3] else []) @
            map ((+) n) (run_picks (dropWhile (\<lambda>x. az_val x = az_val r) rs)))
      else map Suc (run_picks rs))"
  by pat_completeness auto
termination
  by (relation "measure length") (auto simp: less_Suc_eq_le length_dropWhile_le)

lemma run_cond: "num \<noteq> [] \<Longrightarrow> (51 < length r \<and> r ! 51 = num) = (az_val r = num)"
  by (auto simp: az_val_def)

lemma run_end_takeWhile:
  "num \<noteq> [] \<Longrightarrow> j \<le> length rows \<Longrightarrow>
   run_end rows num j = j + length (takeWhile (\<lambda>x. az_val x = num) (drop j rows))"
proof (induction rows num j rule: run_end.induct)
  case (1 rows num j)
  show ?case
  proof (cases "j < length rows")
    case True
    then have d: "drop j rows = rows ! j # drop (Suc j) rows"
      by (simp add: Cons_nth_drop_Suc)
    show ?thesis
    proof (cases "az_val (rows ! j) = num")
      case a: True
      then have "run_end rows num j = run_end rows num (j + 1)"
        using True run_cond [OF 1(2), of "rows ! j"] by (subst run_end.simps) simp
      also have "\<dots> = (j + 1) + length (takeWhile (\<lambda>x. az_val x = num) (drop (j + 1) rows))"
        using 1 True a run_cond [OF 1(2), of "rows ! j"] by simp
      finally show ?thesis using d a by simp
    next
      case a: False
      then have "run_end rows num j = j"
        using run_cond [OF 1(2), of "rows ! j"] by (subst run_end.simps) auto
      then show ?thesis using d a by simp
    qed
  next
    case False
    then show ?thesis using 1(3) by (subst run_end.simps) simp
  qed
qed

lemma note_run_eq:
  "note_run i j kept = kept @ (if j - i \<ge> 5 then [i, i + 3] else [])"
  by (auto simp: note_run_def Let_def)

lemma isdigit_nonempty: "isdigit s \<Longrightarrow> s \<noteq> []"
  by (simp add: isdigit_def)

lemma kept_loop_run_picks:
  "i \<le> length rows \<Longrightarrow>
   kept_loop rows i kept = kept @ map ((+) i) (run_picks (drop i rows))"
proof (induction rows i kept rule: kept_loop.induct)
  case (1 rows i kept)
  show ?case
  proof (cases "i < length rows")
    case False
    then show ?thesis using 1(3) by (simp add: kept_loop.simps)
  next
    case True
    then have d: "drop i rows = rows ! i # drop (Suc i) rows"
      by (simp add: Cons_nth_drop_Suc)
    show ?thesis
    proof (cases "isdigit (az_val (rows ! i))")
      case False
      have "kept_loop rows i kept = kept_loop rows (i + 1) kept"
        using True False by (subst kept_loop.simps) simp
      also have "\<dots> = kept @ map ((+) (i + 1)) (run_picks (drop (i + 1) rows))"
        using 1(2) [OF True False] True by simp
      finally show ?thesis using d False by simp
    next
      case dg: True
      let ?num = "az_val (rows ! i)"
      let ?P = "\<lambda>x. az_val x = ?num"
      let ?j = "run_end rows ?num i"
      let ?t = "drop (Suc i) rows"
      have j: "?j = i + Suc (length (takeWhile ?P ?t))"
        using run_end_takeWhile [OF isdigit_nonempty [OF dg], of i rows] True d by simp
      have jle: "?j \<le> length rows"
        using True by (intro run_end_le) simp
      have dj: "drop ?j rows = dropWhile ?P ?t"
        unfolding j by (simp add: dropWhile_eq_drop add.commute)
      have "kept_loop rows i kept = kept_loop rows ?j (note_run i ?j kept)"
        using True dg by (subst kept_loop.simps) (simp add: Let_def)
      also have "\<dots> = note_run i ?j kept @ map ((+) ?j) (run_picks (drop ?j rows))"
        using 1(1) [OF True dg refl refl jle] .
      finally show ?thesis
        unfolding dj note_run_eq d using dg j by (simp add: Let_def)
    qed
  qed
qed

lemma keep_run_eq:
  "keep_run rows i j keep = keep @ map ((!) rows) (note_run i j [])"
  by (auto simp: keep_run_def note_run_def Let_def)

lemma sample_loop_kept:
  "sample_loop rows i keep = keep @ map ((!) rows) (kept_loop rows i [])"
proof (induction rows i keep rule: sample_loop.induct)
  case (1 rows i keep)
  show ?case
  proof (cases "i < length rows")
    case False
    then show ?thesis by (simp add: sample_loop.simps kept_loop.simps)
  next
    case True
    show ?thesis
    proof (cases "isdigit (az_val (rows ! i))")
      case False
      then show ?thesis
        using True 1(2) by (simp add: sample_loop.simps [of rows i] kept_loop.simps [of rows i])
    next
      case dg: True
      let ?j = "run_end rows (az_val (rows ! i)) i"
      have jle: "?j \<le> length rows"
        using True by (intro run_end_le) simp
      have "sample_loop rows i keep = sample_loop rows ?j (keep_run rows i ?j keep)"
        using True dg by (subst sample_loop.simps) (simp add: Let_def)
      also have "\<dots> = keep_run rows i ?j keep @ map ((!) rows) (kept_loop rows ?j [])"
        using 1(1) [OF True dg refl refl] .
      also have "\<dots> = keep @ map ((!) rows) (note_run i ?j [] @ kept_loop rows ?j [])"
        by (simp add: keep_run_eq)
      also have "note_run i ?j [] @ kept_loop rows ?j [] = kept_loop rows ?j (note_run i ?j [])"
        using jle by (simp add: kept_loop_run_picks)
      also have "\<dots> = kept_loop rows i []"
        using True dg by (subst (2) kept_loop.simps) (simp add: Let_def)
      finally show ?thesis .
    qed
  qed
qed

lemma kept_positions_run_picks: "kept_positions rows = run_picks rows"
  by (simp add: kept_positions_def kept_loop_run_picks map_idI)

lemma sample_kept: "sample rows = map ((!) rows) (kept_positions rows)"
  by (simp add: sample_def kept_positions_def sample_loop_kept)


lemma run_picks_run:
  assumes "run \<noteq> []" "isdigit k" "\<forall>r\<in>set run. az_val r = k"
    "post = [] \<or> az_val (hd post) \<noteq> k"
  shows "run_picks (run @ post) =
    (if length run \<ge> 5 then [0, 3] else []) @ map ((+) (length run)) (run_picks post)"
proof -
  obtain r rs where run: "run = r # rs"
    using assms(1) by (cases run) auto
  let ?P = "\<lambda>x. az_val x = az_val r"
  have k: "az_val r = k" using assms(3) run by simp
  have all: "\<forall>x\<in>set rs. ?P x" using assms(3) run by simp
  have post: "takeWhile ?P post = []" "dropWhile ?P post = post"
    using assms(4) k by (cases post; simp)+
  have "takeWhile ?P (rs @ post) = rs" "dropWhile ?P (rs @ post) = post"
    using all post by simp_all
  then show ?thesis
    using run k assms(2) by (simp add: Let_def)
qed

lemma run_picks_split:
  "run \<noteq> [] \<Longrightarrow> isdigit k \<Longrightarrow> \<forall>r\<in>set run. az_val r = k \<Longrightarrow>
   pre = [] \<or> az_val (last pre) \<noteq> k \<Longrightarrow> post = [] \<or> az_val (hd post) \<noteq> k \<Longrightarrow>
   run_picks (pre @ run @ post) =
     run_picks pre @ (if length run \<ge> 5 then [length pre, length pre + 3] else []) @
     map ((+) (length pre + length run)) (run_picks post)"
proof (induction pre rule: run_picks.induct)
  case 1
  then show ?case using run_picks_run [of run k post] by simp
next
  case (2 p ps)
  have lastps: "ps = [] \<or> az_val (last ps) \<noteq> k"
    using 2(6) by (cases ps) auto
  show ?case
  proof (cases "isdigit (az_val p)")
    case False
    have "run_picks (ps @ run @ post) =
        run_picks ps @ (if length run \<ge> 5 then [length ps, length ps + 3] else []) @
        map ((+) (length ps + length run)) (run_picks post)"
      using 2(2) [OF False 2(3) 2(4) 2(5) lastps 2(7)] .
    then show ?thesis using False by simp
  next
    case dg: True
    let ?Q = "\<lambda>x. az_val x = az_val p"
    let ?pre' = "dropWhile ?Q ps"
    have tk: "takeWhile ?Q (ps @ run @ post) = takeWhile ?Q ps"
      and dr: "dropWhile ?Q (ps @ run @ post) = ?pre' @ run @ post"
    proof -
      show "takeWhile ?Q (ps @ run @ post) = takeWhile ?Q ps"
      proof (cases "\<forall>x\<in>set ps. ?Q x")
        case True
        then have "az_val p \<noteq> k"
          using 2(6) by (cases "ps = []") auto
        then have "\<not> ?Q (hd run)" using 2(3) 2(5) by (cases run) auto
        then have e: "takeWhile ?Q (run @ post) = []"
          using 2(3) by (cases run) auto
        have t: "takeWhile ?Q ps = ps"
          using True by (simp add: takeWhile_eq_all_conv)
        have "takeWhile ?Q (ps @ run @ post) = ps @ takeWhile ?Q (run @ post)"
          using True by (intro takeWhile_append2) auto
        then show ?thesis by (simp only: e t append_Nil2)
      next
        case False
        then show ?thesis by (auto simp: takeWhile_append1)
      qed
      show "dropWhile ?Q (ps @ run @ post) = ?pre' @ run @ post"
      proof (cases "\<forall>x\<in>set ps. ?Q x")
        case True
        then have "az_val p \<noteq> k"
          using 2(6) by (cases "ps = []") auto
        then have "\<not> ?Q (hd run)" using 2(3) 2(5) by (cases run) auto
        then have "dropWhile ?Q (run @ post) = run @ post"
          using 2(3) by (cases run) auto
        then show ?thesis using True by simp
      next
        case False
        then show ?thesis by (auto simp: dropWhile_append1)
      qed
    qed
    have lastpre: "?pre' = [] \<or> az_val (last ?pre') \<noteq> k"
    proof (cases "?pre' = []")
      case False
      have "ps = takeWhile ?Q ps @ ?pre'" by simp
      then have "last ps = last ?pre'" using False by (metis last_appendR)
      moreover have "ps \<noteq> []" using False by auto
      ultimately show ?thesis using lastps by simp
    qed simp
    have len: "Suc (length (takeWhile ?Q ps)) + length ?pre' = Suc (length ps)"
      by (metis add_Suc length_append takeWhile_dropWhile_id)
    have ih: "run_picks (?pre' @ run @ post) =
        run_picks ?pre' @ (if length run \<ge> 5 then [length ?pre', length ?pre' + 3] else []) @
        map ((+) (length ?pre' + length run)) (run_picks post)"
      using 2(1) [OF dg refl 2(3) 2(4) 2(5) lastpre 2(7)] .
    show ?thesis
      using dg len by (simp add: Let_def tk dr ih add.assoc [symmetric] del: add_Suc add_Suc_right) 
  qed
qed

lemma run_picks_sorted: "sorted_wrt (<) (run_picks rows)"
proof (induction rows rule: run_picks.induct)
  case 1
  show ?case by simp
next
  case (2 r rs)
  let ?Q = "\<lambda>x. az_val x = az_val r"
  show ?case
  proof (cases "isdigit (az_val r)")
    case True
    then have "sorted_wrt (<) (run_picks (dropWhile ?Q rs))" using 2(1) by simp
    then show ?thesis using True
      by (auto simp: Let_def sorted_wrt_append sorted_wrt_map)
  next
    case False
    then show ?thesis using 2(2) by (simp add: sorted_wrt_map)
  qed
qed

lemma run_picks_bound: "p \<in> set (run_picks rows) \<Longrightarrow> p < length rows"
proof (induction rows arbitrary: p rule: run_picks.induct)
  case 1
  then show ?case by simp
next
  case (2 r rs)
  let ?Q = "\<lambda>x. az_val x = az_val r"
  have len: "length (takeWhile ?Q rs) + length (dropWhile ?Q rs) = length rs"
    by (metis length_append takeWhile_dropWhile_id)
  show ?case
  proof (cases "isdigit (az_val r)")
    case True
    then show ?thesis using 2(1) [OF True refl] 2(3) len
      by (fastforce simp: Let_def split: if_splits)
  next
    case False
    then show ?thesis using 2(2) 2(3) by auto
  qed
qed

lemma run_picks_digit:
  "p \<in> set (run_picks rows) \<Longrightarrow> isdigit (az_val (rows ! p))"
proof (induction rows arbitrary: p rule: run_picks.induct)
  case 1
  then show ?case by simp
next
  case (2 r rs)
  let ?Q = "\<lambda>x. az_val x = az_val r"
  let ?n = "length (takeWhile ?Q rs)"
  show ?case
  proof (cases "isdigit (az_val r)")
    case False
    then have "p \<in> Suc ` set (run_picks rs)" using 2(3) by simp
    then obtain q where "p = Suc q" "q \<in> set (run_picks rs)" by blast
    then show ?thesis using 2(2) [OF False] by simp
  next
    case True
    have "p \<in> set (if 5 \<le> Suc ?n then [0, 3] else []) \<or>
          p \<in> (+) (Suc ?n) ` set (run_picks (dropWhile ?Q rs))"
      using 2(3) True by (simp add: Let_def)
    then consider "p = 0" | "p = 3" "5 \<le> Suc ?n"
      | q where "p = Suc ?n + q" "q \<in> set (run_picks (dropWhile ?Q rs))"
      by (cases "5 \<le> Suc ?n") auto
    then show ?thesis
    proof cases
      case 1
      then show ?thesis using True by simp
    next
      case 2
      then have lt: "2 < ?n" by simp
      have "takeWhile ?Q rs ! 2 \<in> set (takeWhile ?Q rs)"
        using lt by (rule nth_mem)
      then have "?Q (takeWhile ?Q rs ! 2)"
        by (rule set_takeWhileD [THEN conjunct2])
      moreover have "takeWhile ?Q rs ! 2 = rs ! 2"
        using lt by (rule takeWhile_nth)
      moreover have "(r # rs) ! 3 = rs ! 2"
        by (simp add: numeral_3_eq_3 numeral_2_eq_2)
      ultimately show ?thesis using 2(1) True by simp
    next
      case 3
      have "dropWhile ?Q rs = drop ?n rs"
        by (rule dropWhile_eq_drop)
      moreover have "?n \<le> length rs"
        by (rule length_takeWhile_le)
      ultimately have "dropWhile ?Q rs ! q = rs ! (?n + q)"
        by simp
      moreover have "isdigit (az_val (dropWhile ?Q rs ! q))"
        using 2(1) [OF True refl 3(2)] .
      ultimately show ?thesis using 3(1) by simp
    qed
  qed
qed

lemma map_nth_kept_prefix:
  "map ((!) (pre @ ys)) (kept_positions pre) = map ((!) pre) (kept_positions pre)"
  using run_picks_bound [of _ pre]
  by (simp add: kept_positions_run_picks nth_append)

lemma run_end_stops:
  "i < length rows \<Longrightarrow> az_val (rows ! i) \<noteq> num \<Longrightarrow> num \<noteq> [] \<Longrightarrow> i0 \<le> i \<Longrightarrow>
   run_end rows num i0 \<le> i"
proof (induction rows num i0 rule: run_end.induct)
  case (1 rows num j)
  show ?case
  proof (cases "j < i")
    case True
    show ?thesis
    proof (cases "az_val (rows ! j) = num")
      case a: True
      then have "run_end rows num j = run_end rows num (j + 1)"
        using True 1(2) run_cond [OF 1(4), of "rows ! j"] by (subst run_end.simps) simp
      moreover have "run_end rows num (j + 1) \<le> i"
        using 1 True a run_cond [OF 1(4), of "rows ! j"] by simp
      ultimately show ?thesis by simp
    next
      case False
      then have "run_end rows num j = j"
        using run_cond [OF 1(4), of "rows ! j"] by (subst run_end.simps) auto
      then show ?thesis using True by simp
    qed
  next
    case False
    then have "j = i" using 1(5) by simp
    then have "run_end rows num j = j"
      using 1(3) run_cond [OF 1(4), of "rows ! j"] by (subst run_end.simps) auto
    then show ?thesis using \<open>j = i\<close> by simp
  qed
qed

lemma az_val_key_row: "az_val (key_row k) = k"
  by (simp add: az_val_def key_row_def nth_append)

lemma isdigit_3: "isdigit [51]"
  by (simp add: isdigit_def isdigit_char_def digit_ranges_def)


subsection \<open>Claims about the run sampler\<close>

text \<open>
  Claim C1.  A run is a maximal block of consecutive rows with one and the same key
  value that \<open>isdigit\<close> accepts: the row before it, if any, and the row after it, if
  any, carry another key value.  Whatever surrounds it, a run of at least 5 rows
  contributes exactly its first row and its fourth row (offsets 0 and 3), a run of
  fewer than 5 rows (4 included) contributes nothing, and the rows before and after the
  run are sampled as they would be on their own.
\<close>

theorem run_sampler_keeps_first_and_fourth:
  assumes "rows = pre @ run @ post"
    and "run \<noteq> []" and "isdigit k" and "\<forall>r\<in>set run. az_val r = k"
    and "pre = [] \<or> az_val (last pre) \<noteq> k"
    and "post = [] \<or> az_val (hd post) \<noteq> k"
  shows "kept_positions rows =
           kept_positions pre @
           (if 5 \<le> length run then [length pre, length pre + 3] else []) @
           map ((+) (length pre + length run)) (kept_positions post) \<and>
         sample rows =
           sample pre @ (if 5 \<le> length run then [run ! 0, run ! 3] else []) @ sample post"
proof -
  have pos: "kept_positions rows =
      kept_positions pre @
      (if 5 \<le> length run then [length pre, length pre + 3] else []) @
      map ((+) (length pre + length run)) (kept_positions post)"
    unfolding assms(1) kept_positions_run_picks
    using assms(2-6) by (rule run_picks_split)
  have a: "map ((!) rows) (kept_positions pre) = sample pre"
    unfolding assms(1) by (simp add: map_nth_kept_prefix sample_kept)
  have b: "map ((!) rows) (map ((+) (length pre + length run)) (kept_positions post)) = sample post"
    unfolding assms(1) by (simp add: sample_kept nth_append comp_def)
  have c: "rows ! length pre = run ! 0 \<and> rows ! (length pre + 3) = run ! 3"
    if "5 \<le> length run"
  proof -
    have "run \<noteq> []" "3 < length run" using that by auto
    then show ?thesis unfolding assms(1) by (simp add: nth_append)
  qed
  have "sample rows = map ((!) rows) (kept_positions rows)"
    by (rule sample_kept)
  also have "\<dots> = sample pre @ (if 5 \<le> length run then [run ! 0, run ! 3] else []) @ sample post"
    unfolding pos using a b c by simp
  finally show ?thesis using pos by simp
qed

text \<open>
  The example of the specification: six rows with key \<open>3\<close> and one with key \<open>7\<close>
  keep positions 0 and 3.
\<close>

theorem run_sampler_keeps_first_and_fourth_witness:
  "kept_positions (replicate 6 (key_row [51]) @ [key_row [55]]) = [0, 3] \<and>
   sample (replicate 6 (key_row [51]) @ [key_row [55]]) = [key_row [51], key_row [51]]"
proof -
  have "kept_positions [] = []" "sample [] = []"
    by (simp_all add: kept_positions_def sample_def kept_loop.simps sample_loop.simps)
  moreover have "kept_positions [key_row [55]] = []" "sample [key_row [55]] = []"
    by (simp_all add: kept_positions_run_picks sample_kept az_val_key_row)
  ultimately show ?thesis
    using run_sampler_keeps_first_and_fourth
      [of "replicate 6 (key_row [51]) @ [key_row [55]]" "[]" "replicate 6 (key_row [51])"
          "[key_row [55]]" "[51]"]
    by (simp add: az_val_key_row isdigit_3 numeral_3_eq_3)
qed

text \<open>
  Claim C2 (as amended).  A row whose key value is empty, absent or contains a
  character that \<open>str.isdigit\<close> rejects is dropped: the loop moves on by one position
  and leaves \<open>keep\<close> as it is, the position is never among the kept ones, and no run
  that starts at or before the row extends over it.
\<close>

theorem nondigit_row_dropped:
  assumes "i < length rows" and "\<not> isdigit (az_val (rows ! i))"
  shows "sample_loop rows i keep = sample_loop rows (i + 1) keep \<and>
         kept_loop rows i kept = kept_loop rows (i + 1) kept \<and>
         i \<notin> set (kept_positions rows) \<and>
         (\<forall>num i0. isdigit num \<and> i0 \<le> i \<longrightarrow> run_end rows num i0 \<le> i)"
proof -
  have "sample_loop rows i keep = sample_loop rows (i + 1) keep"
    using assms by (subst sample_loop.simps) simp
  moreover have "kept_loop rows i kept = kept_loop rows (i + 1) kept"
    using assms by (subst kept_loop.simps) simp
  moreover have "i \<notin> set (kept_positions rows)"
    using assms(2) run_picks_digit [of i rows] by (auto simp: kept_positions_run_picks)
  moreover have "run_end rows num i0 \<le> i" if "isdigit num" "i0 \<le> i" for num i0
    using assms that by (intro run_end_stops) (auto simp: isdigit_nonempty)
  ultimately show ?thesis by blast
qed

text \<open>
  Five rows with the key \<open>abc\<close>: the row at position 2 is stepped over, is not kept,
  and a run of \<open>3\<close>s looked for from position 0 ends before it.
\<close>

theorem nondigit_row_dropped_witness:
  "sample_loop (replicate 5 (key_row [97, 98, 99])) 2 [] =
     sample_loop (replicate 5 (key_row [97, 98, 99])) (2 + 1) [] \<and>
   2 \<notin> set (kept_positions (replicate 5 (key_row [97, 98, 99]))) \<and>
   run_end (replicate 5 (key_row [97, 98, 99])) [51] 0 \<le> 2"
proof -
  have "\<not> isdigit (az_val (replicate 5 (key_row [97, 98, 99]) ! 2))"
    by (simp add: az_val_key_row isdigit_def isdigit_char_def digit_ranges_def)
  then show ?thesis
    using nondigit_row_dropped [of 2 "replicate 5 (key_row [97, 98, 99])" "[]" "[]"] isdigit_3
    by simp
qed

text \<open>
  Claim C2 as stated fails: \<open>str.isdigit\<close> also accepts digits that are not decimal
  digits.  Five rows whose key is the superscript two (U+00B2) form a run, and
  positions 0 and 3 are kept.
\<close>

theorem superscript_two_rows_kept:
  "\<not> isdecimal_char 178 \<and> isdigit [178] \<and>
   kept_positions (replicate 5 (key_row [178])) = [0, 3] \<and>
   sample (replicate 5 (key_row [178])) = [key_row [178], key_row [178]]"
proof -
  have "\<not> isdecimal_char 178"
    by (simp add: isdecimal_char_def decimal_ranges_def)
  moreover have d: "isdigit [178]"
    by (simp add: isdigit_def isdigit_char_def digit_ranges_def)
  moreover have k: "kept_positions (replicate 5 (key_row [178])) = [0, 3]"
    using d by (simp add: kept_positions_run_picks az_val_key_row numeral_eq_Suc)
  moreover have "sample (replicate 5 (key_row [178])) = [key_row [178], key_row [178]]"
    unfolding sample_kept k by (simp add: numeral_eq_Suc)
  ultimately show ?thesis by blast
qed

end
